theory Spec2Isabelle
  imports Main "HOL-Library.Word"
begin

section \<open>Characters and the buffer\<close>

text \<open>
  The buffer argument of \<open>fast_fscanf_mem\<close> is a \<open>const char *\<close>: the memory it points
  into, indexed from the buffer's start. The \<open>size\<close> argument says how much of it the
  scanner may look at; what lies at index \<open>size\<close> and beyond is still memory, which the
  scanner must not read. Pointers into the buffer are offsets from its start.
\<close>

type_synonym buffer = "nat \<Rightarrow> char"

text \<open>A concrete buffer holding the bytes of a string (zero bytes behind it).\<close>

definition mem_of :: "string \<Rightarrow> buffer" where
  "mem_of s = (\<lambda>i. if i < length s then s ! i else CHR 0x00)"

text \<open>The classification functions of \<open><cctype>\<close> in the "C" locale (the program never
  changes the locale).\<close>

definition isspace :: "char \<Rightarrow> bool" where
  "isspace c = (c \<in> set [CHR 0x20, CHR 0x09, CHR 0x0A, CHR 0x0B, CHR 0x0C, CHR 0x0D])"

definition isdigit :: "char \<Rightarrow> bool" where
  "isdigit c = (c \<in> set ''0123456789'')"

definition isxdigit :: "char \<Rightarrow> bool" where
  "isxdigit c = (isdigit c \<or> c \<in> set ''abcdefABCDEF'')"

section \<open>The scanner over the buffer\<close>

text \<open>\<open>struct MemScanner { const char *ptr; const char *end; }\<close>: the field \<open>end\<close> is
  called \<open>endp\<close> here.\<close>

record MemScanner =
  ptr :: nat
  endp :: nat

definition ms_eof :: "MemScanner \<Rightarrow> bool" where
  "ms_eof ms = (ptr ms \<ge> endp ms)"

definition ms_peek :: "buffer \<Rightarrow> MemScanner \<Rightarrow> char" where
  "ms_peek buf ms = (if ms_eof ms then CHR 0x00 else buf (ptr ms))"

definition ms_getc :: "buffer \<Rightarrow> MemScanner \<Rightarrow> char \<times> MemScanner" where
  "ms_getc buf ms =
     (if ms_eof ms then (CHR 0x00, ms) else (buf (ptr ms), ms\<lparr>ptr := ptr ms + 1\<rparr>))"

text \<open>The test of \<open>ms_ungetc\<close> that guards the decrement,
  \<open>ms.ptr > (ms.end - (ms.end - ms.ptr))\<close>: a pointer compared with a pointer minus a
  signed pointer difference.\<close>

definition ungetc_can_go_back :: "MemScanner \<Rightarrow> bool" where
  "ungetc_can_go_back ms = (int (ptr ms) > int (endp ms) - (int (endp ms) - int (ptr ms)))"

definition ms_ungetc :: "MemScanner \<Rightarrow> MemScanner" where
  "ms_ungetc ms =
     (let ms1 = (if ptr ms > endp ms then ms\<lparr>ptr := endp ms\<rparr> else ms)
      in if ungetc_can_go_back ms1 then ms1\<lparr>ptr := ptr ms1 - 1\<rparr> else ms1)"

function ms_skip_whitespace :: "buffer \<Rightarrow> MemScanner \<Rightarrow> MemScanner" where
  "ms_skip_whitespace buf ms =
     (if \<not> ms_eof ms \<and> isspace (buf (ptr ms))
      then ms_skip_whitespace buf (ms\<lparr>ptr := ptr ms + 1\<rparr>)
      else ms)"
  by pat_completeness auto
termination
  by (relation "measure (\<lambda>(buf, ms). endp ms - ptr ms)") (auto simp: ms_eof_def)

declare ms_skip_whitespace.simps [simp del]

section \<open>Output slots\<close>

text \<open>
  The variadic arguments are pointers to the caller's variables. \<open>va_arg\<close> hands them out
  in order, so the model keeps the variables as a store indexed by argument position,
  and the position of the next \<open>va_arg\<close>. The pointers are taken to be valid, distinct
  and of the type the directive expects (anything else is undefined behaviour in C).
  A \<open>long\<close> has 64 bits, an \<open>int\<close> 32 and a \<open>short\<close> 16 (LP64).

  A floating-point slot holds the decimal numeral the C library converter accepted; the
  value stored by the program is that numeral rounded to the slot's format, which is
  below this model.
\<close>

datatype slot =
    SShort "16 word"
  | SInt "32 word"
  | SLong "64 word"
  | SUShort "16 word"
  | SUInt "32 word"
  | SULong "64 word"
  | SFloat string
  | SDouble string
  | SLongDouble string
  | SChar char
  | SStr string

section \<open>Token scanners\<close>

definition readChar :: "buffer \<Rightarrow> MemScanner \<Rightarrow> slot \<Rightarrow> bool \<times> MemScanner \<times> slot" where
  "readChar buf ms out =
     (if ms_eof ms then (False, ms, out)
      else (let (c, ms') = ms_getc buf ms in (True, ms', SChar c)))"

text \<open>The loop of \<open>readString\<close>. \<open>stored\<close> is \<open>dest[0..count-1]\<close>, the characters this call
  has written so far (\<open>count\<close> is its length); each store also writes the terminating
  zero behind them, so the string at \<open>dest\<close> is then exactly \<open>stored\<close>.\<close>

function readString_loop ::
  "buffer \<Rightarrow> int \<Rightarrow> MemScanner \<Rightarrow> string \<Rightarrow> slot \<Rightarrow> MemScanner \<times> string \<times> slot" where
  "readString_loop buf width ms stored dest =
     (if ms_eof ms then (ms, stored, dest)
      else
        (let c = ms_peek buf ms in
         if isspace c then (ms, stored, dest)
         else
           (let ms' = snd (ms_getc buf ms) in
            if int (length stored) < width - 1
            then readString_loop buf width ms' (stored @ [c]) (SStr (stored @ [c]))
            else readString_loop buf width ms' stored dest)))"
  by pat_completeness auto
termination
  by (relation "measure (\<lambda>(buf, width, ms, stored, dest). endp ms - ptr ms)")
     (auto simp: ms_eof_def ms_getc_def)

declare readString_loop.simps [simp del]

definition readString :: "buffer \<Rightarrow> MemScanner \<Rightarrow> slot \<Rightarrow> int \<Rightarrow> bool \<times> MemScanner \<times> slot" where
  "readString buf ms dest width0 =
     (let width = (if width0 \<le> 0 then 1024 * 1024 else width0);
          ms1 = ms_skip_whitespace buf ms;
          (ms2, stored, dest') = readString_loop buf width ms1 [] dest
      in (length stored > 0, ms2, dest'))"

text \<open>The digit loop of \<open>readIntegerToken\<close>. \<open>tok\<close> is the text in \<open>outBuf\<close> before its
  terminating zero, \<open>pos\<close> its length.\<close>

function readIntegerToken_loop ::
  "buffer \<Rightarrow> int \<Rightarrow> nat \<Rightarrow> MemScanner \<Rightarrow> string \<Rightarrow> bool \<Rightarrow> bool \<times> MemScanner \<times> string" where
  "readIntegerToken_loop buf base bufSize ms tok gotDigit =
     (if ms_eof ms then (gotDigit, ms, tok)
      else
        (let c = ms_peek buf ms;
             valid = (if base = 10 then isdigit c else if base = 16 then isxdigit c else False)
         in if \<not> valid then (gotDigit, ms, tok)
            else readIntegerToken_loop buf base bufSize (snd (ms_getc buf ms))
                   (if length tok < bufSize - 1 then tok @ [c] else tok) True))"
  by pat_completeness auto
termination
  by (relation "measure (\<lambda>(buf, base, bufSize, ms, tok, gotDigit). endp ms - ptr ms)")
     (auto simp: ms_eof_def ms_getc_def)

declare readIntegerToken_loop.simps [simp del]

definition readIntegerToken ::
  "buffer \<Rightarrow> MemScanner \<Rightarrow> bool \<Rightarrow> int \<Rightarrow> nat \<Rightarrow> bool \<times> MemScanner \<times> string" where
  "readIntegerToken buf ms allowSign base bufSize =
     (if bufSize < 2 then (False, ms, [])
      else
        (let ms1 = ms_skip_whitespace buf ms;
             c = ms_peek buf ms1;
             (ms2, tok) =
               (if allowSign \<and> (c = CHR ''+'' \<or> c = CHR ''-'')
                then (snd (ms_getc buf ms1), [c]) else (ms1, []))
         in readIntegerToken_loop buf base bufSize ms2 tok False))"

text \<open>The loop of \<open>readFloatToken\<close>; \<open>outBuf[pos-1]\<close> is the last stored character.\<close>

function readFloatToken_loop ::
  "buffer \<Rightarrow> nat \<Rightarrow> MemScanner \<Rightarrow> string \<Rightarrow> bool \<Rightarrow> bool \<Rightarrow> bool \<Rightarrow> bool \<times> MemScanner \<times> string" where
  "readFloatToken_loop buf bufSize ms tok gotAny seenExponent seenDot =
     (if ms_eof ms then (gotAny, ms, tok)
      else
        (let c = ms_peek buf ms;
             (valid, gotAny', seenExponent', seenDot') =
               (if isdigit c then (True, True, seenExponent, seenDot)
                else if \<not> seenDot \<and> c = CHR ''.'' then (True, True, seenExponent, True)
                else if \<not> seenExponent \<and> (c = CHR ''e'' \<or> c = CHR ''E'')
                  then (True, True, True, seenDot)
                else if (c = CHR ''+'' \<or> c = CHR ''-'') \<and> seenExponent then
                  (if tok \<noteq> [] \<and> (last tok = CHR ''e'' \<or> last tok = CHR ''E'')
                   then (True, True, seenExponent, seenDot)
                   else (False, gotAny, seenExponent, seenDot))
                else (False, gotAny, seenExponent, seenDot))
         in if \<not> valid then (gotAny', ms, tok)
            else readFloatToken_loop buf bufSize (snd (ms_getc buf ms))
                   (if length tok < bufSize - 1 then tok @ [c] else tok)
                   gotAny' seenExponent' seenDot'))"
  by pat_completeness auto
termination
  by (relation "measure (\<lambda>(buf, bufSize, ms, tok, gotAny, seenExponent, seenDot).
        endp ms - ptr ms)")
     (auto simp: ms_eof_def ms_getc_def)

declare readFloatToken_loop.simps [simp del]

definition readFloatToken :: "buffer \<Rightarrow> MemScanner \<Rightarrow> nat \<Rightarrow> bool \<times> MemScanner \<times> string" where
  "readFloatToken buf ms bufSize =
     (if bufSize < 2 then (False, ms, [])
      else
        (let ms1 = ms_skip_whitespace buf ms;
             c = ms_peek buf ms1;
             (ms2, tok, gotAny) =
               (if c = CHR ''+'' \<or> c = CHR ''-''
                then (snd (ms_getc buf ms1), [c], True) else (ms1, [], False))
         in readFloatToken_loop buf bufSize ms2 tok gotAny False False))"

section \<open>Library converters\<close>

text \<open>
  \<open>std::from_chars\<close> on integers (C++17): an optional minus sign for a signed type, never
  a plus sign, no prefix, then the longest run of digits of the base; no digit at all is
  \<open>invalid_argument\<close>, a value that does not fit the type is \<open>result_out_of_range\<close>. The
  program only asks whether the error code is clear, so an error is \<open>None\<close> here; on an
  error the destination is not written.
\<close>

definition digit_value :: "char \<Rightarrow> nat" where
  "digit_value c =
     (if isdigit c then of_char c - 48
      else if c \<in> set ''abcdef'' then of_char c - 87
      else of_char c - 55)"

definition is_base_digit :: "nat \<Rightarrow> char \<Rightarrow> bool" where
  "is_base_digit base c = (isxdigit c \<and> digit_value c < base)"

definition digits_value :: "nat \<Rightarrow> string \<Rightarrow> nat" where
  "digits_value base ds = foldl (\<lambda>a c. a * base + digit_value c) 0 ds"

text \<open>For \<open>unsigned long\<close>.\<close>

definition from_chars_unsigned :: "string \<Rightarrow> nat \<Rightarrow> nat option" where
  "from_chars_unsigned s base =
     (let ds = takeWhile (is_base_digit base) s; v = digits_value base ds
      in if ds = [] then None else if v < 2 ^ 64 then Some v else None)"

text \<open>For \<open>long\<close>.\<close>

definition from_chars_signed :: "string \<Rightarrow> nat \<Rightarrow> int option" where
  "from_chars_signed s base =
     (let neg = (s \<noteq> [] \<and> hd s = CHR ''-'');
          ds = takeWhile (is_base_digit base) (if neg then tl s else s);
          v = digits_value base ds
      in if ds = [] then None
         else if neg then (if v \<le> 2 ^ 63 then Some (- int v) else None)
         else (if v < 2 ^ 63 then Some (int v) else None))"

text \<open>
  \<open>strtod\<close> and \<open>strtold\<close> on a token of the float scanner, which holds signs, digits,
  points and exponent markers only (so no white space, no \<open>inf\<close>, \<open>nan\<close> or hexadecimal
  form): the longest prefix that is a decimal numeral, empty when there is none
  (\<open>endp == tok\<close>). A numeral needs a digit before or after its point; an exponent
  counts only when it has a digit.
\<close>

definition strtod_prefix :: "string \<Rightarrow> string" where
  "strtod_prefix s =
     (let sgn = (if s \<noteq> [] \<and> (hd s = CHR ''+'' \<or> hd s = CHR ''-'') then [hd s] else []);
          r = drop (length sgn) s;
          ip = takeWhile isdigit r;
          r1 = drop (length ip) r;
          fp = (if r1 \<noteq> [] \<and> hd r1 = CHR ''.'' then CHR ''.'' # takeWhile isdigit (tl r1) else []);
          r2 = drop (length fp) r1;
          es = (if r2 \<noteq> [] \<and> (hd r2 = CHR ''e'' \<or> hd r2 = CHR ''E'') then
                  (let r3 = tl r2;
                       esg = (if r3 \<noteq> [] \<and> (hd r3 = CHR ''+'' \<or> hd r3 = CHR ''-'')
                              then [hd r3] else []);
                       ed = takeWhile isdigit (drop (length esg) r3)
                   in if ed = [] then [] else hd r2 # esg @ ed)
                else [])
      in if ip = [] \<and> length fp \<le> 1 then [] else sgn @ ip @ fp @ es)"

text \<open>
  \<open>std::from_chars\<close> on \<open>double\<close> with \<open>chars_format::general\<close> reads the same numerals,
  except that it takes no leading plus sign. It also fails on a numeral outside the
  range of \<open>double\<close>; the program then falls back to \<open>strtod\<close>, which accepts it, so both
  paths store the conversion of the same text and the range is left out here.
\<close>

definition from_chars_double :: "string \<Rightarrow> string option" where
  "from_chars_double s =
     (if s \<noteq> [] \<and> hd s = CHR ''+'' then None
      else if strtod_prefix s = [] then None else Some (strtod_prefix s))"

text \<open>\<open>atoi\<close> on a run of at most 15 digits: the value, cut to an \<open>int\<close>.\<close>

definition atoi :: "string \<Rightarrow> int" where
  "atoi s = sint (word_of_nat (digits_value 10 (takeWhile isdigit s)) :: 32 word)"

section \<open>The directive interpreter\<close>

text \<open>The state of one call: the scanner, the match count, the position in the \<open>va_list\<close>
  and the caller's variables behind the variadic pointers.\<close>

record scan_state =
  ms :: MemScanner
  matchedCount :: nat
  va :: nat
  args :: "nat \<Rightarrow> slot"

text \<open>\<open>*format\<close>: the format is a C string, so its end reads as the zero byte.\<close>

definition fmt_hd :: "string \<Rightarrow> char" where
  "fmt_hd fmt = (case fmt of [] \<Rightarrow> CHR 0x00 | c # _ \<Rightarrow> c)"

text \<open>\<open>va_arg(args, T*)\<close>: the position of the variable, and the list moved on.\<close>

definition va_arg :: "scan_state \<Rightarrow> nat \<times> scan_state" where
  "va_arg st = (va st, st\<lparr>va := va st + 1\<rparr>)"

definition store :: "nat \<Rightarrow> slot \<Rightarrow> scan_state \<Rightarrow> scan_state" where
  "store p v st = st\<lparr>args := (args st)(p := v)\<rparr>"

text \<open>
  The head of a conversion directive, read from the character after the percent sign:
  dots and digits are skipped, then one length modifier, then a width of at most 15
  digits. The result is \<open>(isShort, isLong, isLongDouble, strWidth, rest)\<close>, with \<open>rest\<close>
  starting at the type letter.
\<close>

definition parse_directive :: "string \<Rightarrow> bool \<times> bool \<times> bool \<times> int \<times> string" where
  "parse_directive f0 =
     (let f1 = dropWhile (\<lambda>c. c = CHR ''.'' \<or> isdigit c) f0;
          isShort = (fmt_hd f1 = CHR ''h'');
          isLong = (\<not> isShort \<and> fmt_hd f1 = CHR ''l'');
          isLongDouble = (\<not> isShort \<and> \<not> isLong \<and> fmt_hd f1 = CHR ''L'');
          f2 = (if isShort \<or> isLong \<or> isLongDouble then tl f1 else f1);
          widthStr = take 15 (takeWhile isdigit f2);
          strWidth = (if isdigit (fmt_hd f2) then atoi widthStr else 0);
          f3 = drop (length widthStr) f2
      in (isShort, isLong, isLongDouble, strWidth, f3))"

text \<open>The cases of the \<open>switch\<close>. Each returns \<open>success\<close> and the new state.\<close>

definition conv_d :: "buffer \<Rightarrow> bool \<Rightarrow> bool \<Rightarrow> scan_state \<Rightarrow> bool \<times> scan_state" where
  "conv_d buf isShort isLong st =
     (let (ok, ms', tok) = readIntegerToken buf (ms st) True 10 128;
          st1 = st\<lparr>ms := ms'\<rparr>
      in if \<not> ok then (False, st1)
         else
           (let (p, st2) = va_arg st1 in
            case from_chars_signed tok 10 of
              None \<Rightarrow> (False, st2)
            | Some val \<Rightarrow>
                (True, store p (if isShort then SShort (word_of_int val)
                                else if isLong then SLong (word_of_int val)
                                else SInt (word_of_int val)) st2)))"

definition conv_u :: "buffer \<Rightarrow> bool \<Rightarrow> bool \<Rightarrow> scan_state \<Rightarrow> bool \<times> scan_state" where
  "conv_u buf isShort isLong st =
     (let (ok, ms', tok) = readIntegerToken buf (ms st) False 10 128;
          st1 = st\<lparr>ms := ms'\<rparr>
      in if \<not> ok then (False, st1)
         else
           (let (p, st2) = va_arg st1 in
            case from_chars_unsigned tok 10 of
              None \<Rightarrow> (False, st2)
            | Some val \<Rightarrow>
                (True, store p (if isShort then SUShort (word_of_nat val)
                                else if isLong then SULong (word_of_nat val)
                                else SUInt (word_of_nat val)) st2)))"

definition conv_x :: "buffer \<Rightarrow> bool \<Rightarrow> bool \<Rightarrow> scan_state \<Rightarrow> bool \<times> scan_state" where
  "conv_x buf isShort isLong st =
     (let (ok, ms', tok) = readIntegerToken buf (ms st) False 16 128;
          st1 = st\<lparr>ms := ms'\<rparr>
      in if \<not> ok then (False, st1)
         else
           (let (p, st2) = va_arg st1 in
            case from_chars_unsigned tok 16 of
              None \<Rightarrow> (False, st2)
            | Some val \<Rightarrow>
                (True, store p (if isShort then SUShort (word_of_nat val)
                                else if isLong then SULong (word_of_nat val)
                                else SUInt (word_of_nat val)) st2)))"

definition conv_f :: "buffer \<Rightarrow> bool \<Rightarrow> bool \<Rightarrow> scan_state \<Rightarrow> bool \<times> scan_state" where
  "conv_f buf isLong isLongDouble st =
     (let (ok, ms', tok) = readFloatToken buf (ms st) 256;
          st1 = st\<lparr>ms := ms'\<rparr>
      in if \<not> ok then (False, st1)
         else
           (let (p, st2) = va_arg st1 in
            if isLongDouble then
              (if strtod_prefix tok \<noteq> [] then (True, store p (SLongDouble (strtod_prefix tok)) st2)
               else (False, st2))
            else
              (case from_chars_double tok of
                 Some tmp \<Rightarrow> (True, store p (if isLong then SDouble tmp else SFloat tmp) st2)
               | None \<Rightarrow>
                   (if strtod_prefix tok \<noteq> []
                    then (True, store p (if isLong then SDouble (strtod_prefix tok)
                                         else SFloat (strtod_prefix tok)) st2)
                    else (False, st2)))))"

definition conv_c :: "buffer \<Rightarrow> scan_state \<Rightarrow> bool \<times> scan_state" where
  "conv_c buf st =
     (let (p, st1) = va_arg st;
          (ok, ms', out) = readChar buf (ms st1) (args st1 p)
      in (ok, store p out (st1\<lparr>ms := ms'\<rparr>)))"

definition conv_s :: "buffer \<Rightarrow> int \<Rightarrow> scan_state \<Rightarrow> bool \<times> scan_state" where
  "conv_s buf strWidth st =
     (let (p, st1) = va_arg st;
          (ok, ms', dest) =
             readString buf (ms st1) (args st1 p) (if strWidth > 0 then strWidth else 1024)
      in (ok, store p dest (st1\<lparr>ms := ms'\<rparr>)))"

definition convert ::
  "buffer \<Rightarrow> char \<Rightarrow> bool \<Rightarrow> bool \<Rightarrow> bool \<Rightarrow> int \<Rightarrow> scan_state \<Rightarrow> bool \<times> scan_state" where
  "convert buf spec isShort isLong isLongDouble strWidth st =
     (if spec = CHR ''d'' then conv_d buf isShort isLong st
      else if spec = CHR ''u'' then conv_u buf isShort isLong st
      else if spec = CHR ''x'' then conv_x buf isShort isLong st
      else if spec = CHR ''f'' \<or> spec = CHR ''g'' \<or> spec = CHR ''e''
        then conv_f buf isLong isLongDouble st
      else if spec = CHR ''c'' then conv_c buf st
      else if spec = CHR ''s'' then conv_s buf strWidth st
      else (False, st))"

text \<open>The inner loop of the branch for a newline in the format.\<close>

function newline_loop :: "buffer \<Rightarrow> MemScanner \<Rightarrow> MemScanner" where
  "newline_loop buf m =
     (if ms_eof m then m
      else
        (let (c, m') = ms_getc buf m in
         if c = CHR 0x0A then m'
         else if \<not> isspace c then ms_ungetc m'
         else newline_loop buf m'))"
  by pat_completeness auto
termination
  by (relation "measure (\<lambda>(buf, m). endp m - ptr m)") (auto simp: ms_eof_def ms_getc_def)

declare newline_loop.simps [simp del]

text \<open>
  The body of the \<open>while (*format)\<close> loop of \<open>fast_fscanf_mem\<close>: one directive of the
  format against the buffer. The result is the new state and the format that is left,
  or \<open>None\<close> where the body leaves the loop with \<open>break\<close>.
\<close>

definition scan_step :: "buffer \<Rightarrow> string \<Rightarrow> scan_state \<Rightarrow> scan_state \<times> string option" where
  "scan_step buf fmt st =
     (if fmt_hd fmt = CHR ''%'' then
        (case parse_directive (tl fmt) of
           (isShort, isLong, isLongDouble, strWidth, f3) \<Rightarrow>
             (let spec = fmt_hd f3 in
              if spec = CHR 0x00 then (st, None)
              else
                (let (success, st') = convert buf spec isShort isLong isLongDouble strWidth st
                 in if success
                    then (st'\<lparr>matchedCount := matchedCount st' + 1\<rparr>, Some (tl f3))
                    else (st', None))))
      else if isspace (fmt_hd fmt) then
        (st\<lparr>ms := ms_skip_whitespace buf (ms st)\<rparr>, Some (tl fmt))
      else if fmt_hd fmt = CHR 0x0A then
        (st\<lparr>ms := newline_loop buf (ms st)\<rparr>, Some (tl fmt))
      else
        (let ms1 = ms_skip_whitespace buf (ms st);
             expected = fmt_hd fmt
         in if ms_eof ms1 then (st\<lparr>ms := ms1\<rparr>, None)
            else
              (let (c, ms2) = ms_getc buf ms1 in
               if c \<noteq> expected then (st\<lparr>ms := ms_ungetc ms2\<rparr>, None)
               else (st\<lparr>ms := ms2\<rparr>, Some (tl fmt)))))"

lemma parse_directive_length:
  assumes "parse_directive f0 = (a, b, c, w, f3)"
  shows "length f3 \<le> length f0"
proof -
  let ?f1 = "dropWhile (\<lambda>c. c = CHR ''.'' \<or> isdigit c) f0"
  have 1: "length ?f1 \<le> length f0" by (rule length_dropWhile_le)
  have "length f3 \<le> length ?f1"
    using assms unfolding parse_directive_def Let_def by (auto split: if_splits)
  then show ?thesis using 1 by simp
qed

lemma scan_step_shorter:
  assumes "fmt_hd fmt \<noteq> CHR 0x00" and "scan_step buf fmt st = (st', Some rest)"
  shows "length rest < length fmt"
proof -
  obtain c fmt' where fmt: "fmt = c # fmt'"
    using assms(1) by (cases fmt) (auto simp: fmt_hd_def)
  show ?thesis
  proof (cases "fmt_hd fmt = CHR ''%''")
    case True
    obtain a b c' w f3 where p: "parse_directive (tl fmt) = (a, b, c', w, f3)"
      by (metis prod_cases5)
    have "rest = tl f3"
      using assms(2) True p
      by (auto simp: scan_step_def Let_def split: if_splits prod.splits)
    moreover have "length f3 \<le> length fmt'"
      using parse_directive_length [OF p] fmt by simp
    ultimately show ?thesis using fmt by simp
  next
    case False
    then have "rest = tl fmt"
      using assms(2)
      by (auto simp: scan_step_def Let_def split: if_splits prod.splits)
    then show ?thesis using fmt by simp
  qed
qed

text \<open>The loop itself: it ends at the end of the format or at a \<open>break\<close>.\<close>

function scan_format :: "buffer \<Rightarrow> string \<Rightarrow> scan_state \<Rightarrow> scan_state" where
  "scan_format buf fmt st =
     (if fmt_hd fmt = CHR 0x00 then st
      else
        (case scan_step buf fmt st of
           (st', None) \<Rightarrow> st'
         | (st', Some rest) \<Rightarrow> scan_format buf rest st'))"
  by pat_completeness auto
termination
proof (relation "measure (\<lambda>(buf, fmt, st). length fmt)", goal_cases)
  case 1
  show ?case by simp
next
  case (2 buf fmt st x1 x2 rest)
  then have "length rest < length fmt"
    using scan_step_shorter [of fmt buf st x1 rest] by simp
  then show ?case by simp
qed

declare scan_format.simps [simp del]

text \<open>
  \<open>fast_fscanf_mem(buffer, size, &offset, format, ...)\<close>: the result is the returned
  count, the value left in \<open>*offset\<close>, and the caller's variables after the call.
\<close>

definition fast_fscanf_mem ::
  "buffer \<Rightarrow> nat \<Rightarrow> nat \<Rightarrow> string \<Rightarrow> (nat \<Rightarrow> slot) \<Rightarrow> nat \<times> nat \<times> (nat \<Rightarrow> slot)" where
  "fast_fscanf_mem buffer bufsize offset format slots =
     (let st = scan_format buffer format
                 \<lparr>ms = \<lparr>ptr = offset, endp = bufsize\<rparr>, matchedCount = 0, va = 0, args = slots\<rparr>
      in (matchedCount st, ptr (ms st), args st))"

text \<open>Variables that all hold the zero character, for concrete calls.\<close>

definition blank_slots :: "nat \<Rightarrow> slot" where
  "blank_slots = (\<lambda>_. SChar (CHR 0x00))"

section \<open>Notions used in the statements\<close>

text \<open>A scanner that has only moved forward, and not beyond the end unless it already
  was there: the end pointer is the same, the position is not smaller, and it is at
  most the larger of the old position and the end.\<close>

definition advanced :: "MemScanner \<Rightarrow> MemScanner \<Rightarrow> bool" where
  "advanced m m' = (endp m' = endp m \<and> ptr m \<le> ptr m' \<and> ptr m' \<le> max (ptr m) (endp m))"

text \<open>Two memories that hold the same bytes at the first \<open>n\<close> indices.\<close>

definition agree :: "nat \<Rightarrow> buffer \<Rightarrow> buffer \<Rightarrow> bool" where
  "agree n buf buf' = (\<forall>i<n. buf i = buf' i)"

text \<open>What one conversion may do to the state: the count is not its business, a success
  takes one variadic pointer, a failure writes nothing, and only the variable behind the
  next pointer can change.\<close>

definition conv_frame :: "scan_state \<Rightarrow> bool \<times> scan_state \<Rightarrow> bool" where
  "conv_frame st r =
     (matchedCount (snd r) = matchedCount st \<and>
      (fst r \<longrightarrow> va (snd r) = va st + 1) \<and>
      (\<not> fst r \<longrightarrow> args (snd r) = args st) \<and>
      (\<forall>i. i \<noteq> va st \<longrightarrow> args (snd r) i = args st i))"

text \<open>Two format characters that are the same, or a newline and a space in either order.\<close>

definition nl_sp :: "char \<Rightarrow> char \<Rightarrow> bool" where
  "nl_sp c c' = (c = c' \<or> ((c = CHR 0x0A \<or> c = CHR '' '') \<and> (c' = CHR 0x0A \<or> c' = CHR '' '')))"

section \<open>Running the model on concrete calls\<close>

lemmas char_defs = isspace_def isdigit_def isxdigit_def

lemmas conv_defs = from_chars_signed_def from_chars_unsigned_def is_base_digit_def
  digit_value_def digits_value_def strtod_prefix_def from_chars_double_def atoi_def

lemmas ms_defs = ms_eof_def ms_peek_def ms_getc_def ms_ungetc_def ungetc_can_go_back_def
  mem_of_def

lemmas scan_defs = readChar_def readString_def readIntegerToken_def readFloatToken_def
  ms_skip_whitespace.simps readString_loop.simps readIntegerToken_loop.simps
  readFloatToken_loop.simps newline_loop.simps

lemmas interp_defs = fmt_hd_def va_arg_def store_def parse_directive_def conv_d_def
  conv_u_def conv_x_def conv_f_def conv_c_def conv_s_def convert_def scan_step_def
  scan_format.simps fast_fscanf_mem_def

lemmas eval_defs = char_defs conv_defs ms_defs scan_defs interp_defs Let_def

section \<open>The cursor only moves forward, and stays in the buffer\<close>


lemma advanced_refl: "advanced m m"
  by (simp add: advanced_def)

lemma advanced_trans: "advanced a b \<Longrightarrow> advanced b c \<Longrightarrow> advanced a c"
  by (auto simp: advanced_def)

lemma ms_getc_advanced: "advanced m (snd (ms_getc buf m))"
  by (simp add: advanced_def ms_getc_def ms_eof_def)

lemma advanced_next: "advanced m0 m \<Longrightarrow> \<not> ms_eof m \<Longrightarrow> advanced m0 (m\<lparr>ptr := Suc (ptr m)\<rparr>)"
  by (auto simp: advanced_def ms_eof_def)

lemma ms_ungetc_in_range: "ptr m \<le> endp m \<Longrightarrow> ms_ungetc m = m"
  by (simp add: ms_ungetc_def ungetc_can_go_back_def)

lemma ms_ungetc_after_getc: "\<not> ms_eof m \<Longrightarrow> ms_ungetc (snd (ms_getc buf m)) = snd (ms_getc buf m)"
  by (simp add: ms_ungetc_in_range ms_getc_def ms_eof_def)

lemma ms_skip_whitespace_adv: "advanced m0 m \<Longrightarrow> advanced m0 (ms_skip_whitespace buf m)"
proof (induction "endp m - ptr m" arbitrary: m rule: less_induct)
  case less
  show ?case
    using less.prems
    by (subst ms_skip_whitespace.simps)
       (auto simp: ms_eof_def intro!: less.hyps advanced_next)
qed

lemma newline_loop_adv: "advanced m0 m \<Longrightarrow> advanced m0 (newline_loop buf m)"
proof (induction "endp m - ptr m" arbitrary: m rule: less_induct)
  case less
  show ?case
    using less.prems
    by (subst newline_loop.simps)
       (auto simp: ms_eof_def ms_getc_def ms_ungetc_in_range intro!: less.hyps advanced_next)
qed

lemma readString_loop_adv:
  "advanced m0 m \<Longrightarrow> advanced m0 (fst (readString_loop buf width m stored dest))"
proof (induction "endp m - ptr m" arbitrary: m stored dest rule: less_induct)
  case less
  show ?case
    using less.prems
    by (subst readString_loop.simps)
       (auto simp: ms_eof_def ms_getc_def Let_def intro!: less.hyps advanced_next)
qed

lemma readIntegerToken_loop_adv:
  "advanced m0 m \<Longrightarrow> advanced m0 (fst (snd (readIntegerToken_loop buf base bufSize m tok g)))"
proof (induction "endp m - ptr m" arbitrary: m tok g base rule: less_induct)
  case less
  show ?case
    using less.prems
    by (subst readIntegerToken_loop.simps)
       (auto simp: ms_eof_def ms_getc_def Let_def intro!: less.hyps advanced_next)
qed

lemma readFloatToken_loop_adv:
  "advanced m0 m \<Longrightarrow> advanced m0 (fst (snd (readFloatToken_loop buf bufSize m tok g e d)))"
proof (induction "endp m - ptr m" arbitrary: m tok g e d rule: less_induct)
  case less
  show ?case
  proof (cases "ms_eof m")
    case True
    then show ?thesis
      using less.prems by (subst readFloatToken_loop.simps) simp
  next
    case False
    have next_m: "advanced m0 (snd (ms_getc buf m))"
      using less.prems ms_getc_advanced advanced_trans by blast
    have "endp (snd (ms_getc buf m)) - ptr (snd (ms_getc buf m)) < endp m - ptr m"
      using False by (simp add: ms_getc_def ms_eof_def)
    then have "advanced m0 (fst (snd (readFloatToken_loop buf bufSize (snd (ms_getc buf m)) t a b c)))"
      for t a b c
      using next_m by (rule less.hyps)
    then show ?thesis
      using less.prems False
      by (subst readFloatToken_loop.simps) (simp add: Let_def split_beta)
  qed
qed

lemma readChar_adv: "advanced m0 m \<Longrightarrow> advanced m0 (fst (snd (readChar buf m out)))"
  by (auto simp: readChar_def ms_getc_def intro: advanced_next)

lemma readString_adv: "advanced m0 m \<Longrightarrow> advanced m0 (fst (snd (readString buf m dest w)))"
  by (simp add: readString_def Let_def split_beta readString_loop_adv ms_skip_whitespace_adv)

lemma readIntegerToken_adv:
  "advanced m0 m \<Longrightarrow> advanced m0 (fst (snd (readIntegerToken buf m allowSign base bufSize)))"
  by (auto simp: readIntegerToken_def Let_def ms_getc_def ms_peek_def
           intro!: readIntegerToken_loop_adv ms_skip_whitespace_adv advanced_next
           split: if_splits)

lemma readFloatToken_adv:
  "advanced m0 m \<Longrightarrow> advanced m0 (fst (snd (readFloatToken buf m bufSize)))"
  by (auto simp: readFloatToken_def Let_def ms_getc_def ms_peek_def
           intro!: readFloatToken_loop_adv ms_skip_whitespace_adv advanced_next
           split: if_splits)


lemma va_arg_ms [simp]: "ms (snd (va_arg st)) = ms st"
  by (simp add: va_arg_def)

lemma store_ms [simp]: "ms (store p v st) = ms st"
  by (simp add: store_def)

lemma convert_adv:
  "advanced m0 (ms st) \<Longrightarrow> advanced m0 (ms (snd (convert buf spec sh lo ld w st)))"
  using readIntegerToken_adv [of m0 "ms st" buf] readFloatToken_adv [of m0 "ms st" buf]
    readString_adv [of m0 "ms st" buf] readChar_adv [of m0 "ms st" buf]
  by (auto simp: convert_def conv_d_def conv_u_def conv_x_def conv_f_def conv_c_def
        conv_s_def Let_def split_beta va_arg_def store_def split: option.splits)

lemma scan_step_adv:
  "advanced m0 (ms st) \<Longrightarrow> advanced m0 (ms (fst (scan_step buf fmt st)))"
  using convert_adv [of m0 st buf]
  by (auto simp: scan_step_def Let_def split_beta ms_getc_def ms_ungetc_in_range ms_eof_def
        intro!: newline_loop_adv ms_skip_whitespace_adv advanced_next
        split: prod.splits)


lemma scan_format_rel:
  assumes step: "\<And>fmt st st' rest. fmt_hd fmt \<noteq> CHR 0x00 \<Longrightarrow> I st \<Longrightarrow>
                   scan_step buf fmt st = (st', Some rest) \<Longrightarrow> I st' \<and> R st st'"
    and stop: "\<And>fmt st st'. fmt_hd fmt \<noteq> CHR 0x00 \<Longrightarrow> I st \<Longrightarrow>
                   scan_step buf fmt st = (st', None) \<Longrightarrow> R st st'"
    and refl: "\<And>st. R st st"
    and trans: "\<And>a b c. R a b \<Longrightarrow> R b c \<Longrightarrow> R a c"
  shows "I st \<Longrightarrow> R st (scan_format buf fmt st)"
proof (induction "length fmt" arbitrary: fmt st rule: less_induct)
  case less
  show ?case
  proof (cases "fmt_hd fmt = CHR 0x00")
    case True
    then show ?thesis by (subst scan_format.simps) (simp add: refl)
  next
    case False
    obtain st' r where s: "scan_step buf fmt st = (st', r)"
      by (cases "scan_step buf fmt st")
    show ?thesis
    proof (cases r)
      case None
      then have "R st st'" using stop [OF False less.prems] s by simp
      then show ?thesis using False s None by (subst scan_format.simps) simp
    next
      case (Some rest)
      have "length rest < length fmt"
        using scan_step_shorter [OF False] s Some by simp
      moreover have 1: "I st' \<and> R st st'"
        using step [OF False less.prems] s Some by simp
      ultimately have "R st' (scan_format buf rest st')"
        using less.hyps by blast
      then have "R st (scan_format buf rest st')"
        using 1 trans by blast
      then show ?thesis using False s Some by (subst scan_format.simps) simp
    qed
  qed
qed

lemma scan_format_adv: "advanced (ms st) (ms (scan_format buf fmt st))"
proof -
  have "True \<Longrightarrow> advanced (ms st) (ms (scan_format buf fmt st))"
  proof (rule scan_format_rel [where I = "\<lambda>_. True" and R = "\<lambda>a b. advanced (ms a) (ms b)"])
    fix fmt st st' rest
    assume "scan_step buf fmt st = (st', Some rest)"
    then show "True \<and> advanced (ms st) (ms st')"
      using scan_step_adv [OF advanced_refl, of st buf fmt] by simp
  next
    fix fmt st st'
    assume "scan_step buf fmt (st::scan_state) = (st', None)"
    then show "advanced (ms st) (ms st')"
      using scan_step_adv [OF advanced_refl, of st buf fmt] by simp
  qed (auto intro: advanced_refl advanced_trans)
  then show ?thesis by simp
qed

subsection \<open>At the end of the buffer\<close>

lemma ms_skip_whitespace_eof: "ms_eof m \<Longrightarrow> ms_skip_whitespace buf m = m"
  by (subst ms_skip_whitespace.simps) simp

lemma readChar_eof: "ms_eof m \<Longrightarrow> readChar buf m out = (False, m, out)"
  by (simp add: readChar_def)

lemma readString_eof: "ms_eof m \<Longrightarrow> readString buf m dest w = (False, m, dest)"
  by (simp add: readString_def ms_skip_whitespace_eof readString_loop.simps)

lemma readIntegerToken_eof:
  "ms_eof m \<Longrightarrow> fst (readIntegerToken buf m allowSign base bufSize) = False \<and>
     fst (snd (readIntegerToken buf m allowSign base bufSize)) = m"
  by (simp add: readIntegerToken_def ms_skip_whitespace_eof readIntegerToken_loop.simps
        ms_peek_def)

lemma readFloatToken_eof:
  "ms_eof m \<Longrightarrow> fst (readFloatToken buf m bufSize) = False \<and>
     fst (snd (readFloatToken buf m bufSize)) = m"
  by (simp add: readFloatToken_def ms_skip_whitespace_eof readFloatToken_loop.simps
        ms_peek_def)

lemma convert_eof:
  assumes "ms_eof (ms st)"
  shows "fst (convert buf spec sh lo ld w st) = False \<and>
         ms (snd (convert buf spec sh lo ld w st)) = ms st \<and>
         matchedCount (snd (convert buf spec sh lo ld w st)) = matchedCount st \<and>
         args (snd (convert buf spec sh lo ld w st)) = args st"
  using assms readIntegerToken_eof [OF assms, of buf] readFloatToken_eof [OF assms, of buf]
  by (auto simp: convert_def conv_d_def conv_u_def conv_x_def conv_f_def conv_c_def
        conv_s_def Let_def split_beta va_arg_def store_def readChar_eof readString_eof)

lemma scan_step_eof:
  assumes "ms_eof (ms st)" and "scan_step buf fmt st = (st', r)"
  shows "ms st' = ms st \<and> matchedCount st' = matchedCount st \<and> args st' = args st"
  using assms convert_eof [OF assms(1), of buf]
  by (auto simp: scan_step_def Let_def split_beta ms_skip_whitespace_eof newline_loop.simps
        split: if_splits)

lemma scan_format_eof:
  "ms_eof (ms st) \<Longrightarrow>
     ms (scan_format buf fmt st) = ms st \<and>
     matchedCount (scan_format buf fmt st) = matchedCount st \<and>
     args (scan_format buf fmt st) = args st"
  by (rule scan_format_rel [where I = "\<lambda>s. ms_eof (ms s)" and
        R = "\<lambda>a b. ms b = ms a \<and> matchedCount b = matchedCount a \<and> args b = args a"])
     (auto dest: scan_step_eof, metis scan_step_eof)


subsection \<open>Only the first \<open>size\<close> bytes are read\<close>

lemma agree_read: "agree (endp m) buf buf' \<Longrightarrow> \<not> ms_eof m \<Longrightarrow> buf (ptr m) = buf' (ptr m)"
  by (simp add: agree_def ms_eof_def)

lemma ms_peek_agree: "agree (endp m) buf buf' \<Longrightarrow> ms_peek buf m = ms_peek buf' m"
  by (simp add: ms_peek_def agree_read)

lemma ms_getc_agree: "agree (endp m) buf buf' \<Longrightarrow> ms_getc buf m = ms_getc buf' m"
  by (simp add: ms_getc_def agree_read)

lemma ms_skip_whitespace_agree:
  "agree (endp m) buf buf' \<Longrightarrow> ms_skip_whitespace buf m = ms_skip_whitespace buf' m"
proof (induction "endp m - ptr m" arbitrary: m rule: less_induct)
  case less
  show ?case
  proof (cases "ms_eof m")
    case True
    then show ?thesis by (simp add: ms_skip_whitespace_eof)
  next
    case False
    have "ms_skip_whitespace buf (m\<lparr>ptr := ptr m + 1\<rparr>) =
          ms_skip_whitespace buf' (m\<lparr>ptr := ptr m + 1\<rparr>)"
      using False less.prems by (intro less.hyps) (auto simp: ms_eof_def)
    then show ?thesis
      using agree_read [OF less.prems False]
      by (subst ms_skip_whitespace.simps, subst (2) ms_skip_whitespace.simps) simp
  qed
qed

lemma newline_loop_agree:
  "agree (endp m) buf buf' \<Longrightarrow> newline_loop buf m = newline_loop buf' m"
proof (induction "endp m - ptr m" arbitrary: m rule: less_induct)
  case less
  show ?case
  proof (cases "ms_eof m")
    case True
    then show ?thesis by (simp add: newline_loop.simps)
  next
    case False
    have "newline_loop buf (m\<lparr>ptr := ptr m + 1\<rparr>) = newline_loop buf' (m\<lparr>ptr := ptr m + 1\<rparr>)"
      using False less.prems by (intro less.hyps) (auto simp: ms_eof_def)
    then show ?thesis
      using agree_read [OF less.prems False] False
      by (subst newline_loop.simps, subst (2) newline_loop.simps) (simp add: ms_getc_def)
  qed
qed

lemma readString_loop_agree:
  "agree (endp m) buf buf' \<Longrightarrow>
     readString_loop buf width m stored dest = readString_loop buf' width m stored dest"
proof (induction "endp m - ptr m" arbitrary: m stored dest rule: less_induct)
  case less
  show ?case
  proof (cases "ms_eof m")
    case True
    then show ?thesis by (simp add: readString_loop.simps)
  next
    case False
    have "readString_loop buf width (m\<lparr>ptr := ptr m + 1\<rparr>) s d =
          readString_loop buf' width (m\<lparr>ptr := ptr m + 1\<rparr>) s d" for s d
      using False less.prems by (intro less.hyps) (auto simp: ms_eof_def)
    then show ?thesis
      using agree_read [OF less.prems False] False
      by (subst readString_loop.simps, subst (2) readString_loop.simps)
         (simp add: ms_getc_def ms_peek_def Let_def)
  qed
qed

lemma readIntegerToken_loop_agree:
  "agree (endp m) buf buf' \<Longrightarrow>
     readIntegerToken_loop buf base bufSize m tok g =
     readIntegerToken_loop buf' base bufSize m tok g"
proof (induction "endp m - ptr m" arbitrary: m tok g rule: less_induct)
  case less
  show ?case
  proof (cases "ms_eof m")
    case True
    then show ?thesis by (simp add: readIntegerToken_loop.simps)
  next
    case False
    have "readIntegerToken_loop buf base bufSize (m\<lparr>ptr := ptr m + 1\<rparr>) t b =
          readIntegerToken_loop buf' base bufSize (m\<lparr>ptr := ptr m + 1\<rparr>) t b" for t b
      using False less.prems by (intro less.hyps) (auto simp: ms_eof_def)
    then show ?thesis
      using agree_read [OF less.prems False] False
      by (subst readIntegerToken_loop.simps, subst (2) readIntegerToken_loop.simps)
         (auto simp: ms_getc_def ms_peek_def Let_def)
  qed
qed

lemma readFloatToken_loop_agree:
  "agree (endp m) buf buf' \<Longrightarrow>
     readFloatToken_loop buf bufSize m tok g e d =
     readFloatToken_loop buf' bufSize m tok g e d"
proof (induction "endp m - ptr m" arbitrary: m tok g e d rule: less_induct)
  case less
  show ?case
  proof (cases "ms_eof m")
    case True
    then show ?thesis by (simp add: readFloatToken_loop.simps)
  next
    case False
    have "readFloatToken_loop buf bufSize (m\<lparr>ptr := ptr m + 1\<rparr>) t a b c =
          readFloatToken_loop buf' bufSize (m\<lparr>ptr := ptr m + 1\<rparr>) t a b c" for t a b c
      using False less.prems by (intro less.hyps) (auto simp: ms_eof_def)
    then show ?thesis
      using agree_read [OF less.prems False] False
      by (subst readFloatToken_loop.simps, subst (2) readFloatToken_loop.simps)
         (simp add: ms_getc_def ms_peek_def Let_def)
  qed
qed


lemma skip_endp [simp]: "endp (ms_skip_whitespace buf m) = endp m"
  using ms_skip_whitespace_adv [OF advanced_refl, of m buf] by (simp add: advanced_def)

lemma readChar_agree: "agree (endp m) buf buf' \<Longrightarrow> readChar buf m out = readChar buf' m out"
  by (simp add: readChar_def ms_getc_agree)

lemma readString_agree:
  "agree (endp m) buf buf' \<Longrightarrow> readString buf m dest w = readString buf' m dest w"
  using ms_skip_whitespace_agree [of m buf buf']
    readString_loop_agree [of "ms_skip_whitespace buf m" buf buf']
  by (simp add: readString_def)

lemma readIntegerToken_agree:
  "agree (endp m) buf buf' \<Longrightarrow>
     readIntegerToken buf m allowSign base bufSize = readIntegerToken buf' m allowSign base bufSize"
  using ms_skip_whitespace_agree [of m buf buf']
    ms_peek_agree [of "ms_skip_whitespace buf m" buf buf']
    ms_getc_agree [of "ms_skip_whitespace buf m" buf buf']
    readIntegerToken_loop_agree [of "ms_skip_whitespace buf m" buf buf']
    readIntegerToken_loop_agree [of "snd (ms_getc buf (ms_skip_whitespace buf m))" buf buf']
    ms_getc_advanced [of "ms_skip_whitespace buf m" buf]
  by (auto simp: readIntegerToken_def Let_def advanced_def)

lemma readFloatToken_agree:
  "agree (endp m) buf buf' \<Longrightarrow>
     readFloatToken buf m bufSize = readFloatToken buf' m bufSize"
  using ms_skip_whitespace_agree [of m buf buf']
    ms_peek_agree [of "ms_skip_whitespace buf m" buf buf']
    ms_getc_agree [of "ms_skip_whitespace buf m" buf buf']
    readFloatToken_loop_agree [of "ms_skip_whitespace buf m" buf buf']
    readFloatToken_loop_agree [of "snd (ms_getc buf (ms_skip_whitespace buf m))" buf buf']
    ms_getc_advanced [of "ms_skip_whitespace buf m" buf]
  by (auto simp: readFloatToken_def Let_def advanced_def)

lemma convert_agree:
  "agree (endp (ms st)) buf buf' \<Longrightarrow>
     convert buf spec sh lo ld w st = convert buf' spec sh lo ld w st"
  by (simp add: convert_def conv_d_def conv_u_def conv_x_def conv_f_def conv_c_def
        conv_s_def readChar_agree readString_agree readIntegerToken_agree
        readFloatToken_agree va_arg_def)

lemma scan_step_agree:
  "agree (endp (ms st)) buf buf' \<Longrightarrow> scan_step buf fmt st = scan_step buf' fmt st"
  using ms_skip_whitespace_agree [of "ms st" buf buf'] newline_loop_agree [of "ms st" buf buf']
    ms_getc_agree [of "ms_skip_whitespace buf (ms st)" buf buf']
  by (auto simp: scan_step_def convert_agree split_beta Let_def)

lemma scan_format_agree:
  "agree (endp (ms st)) buf buf' \<Longrightarrow> scan_format buf fmt st = scan_format buf' fmt st"
proof (induction "length fmt" arbitrary: fmt st rule: less_induct)
  case less
  show ?case
  proof (cases "fmt_hd fmt = CHR 0x00")
    case True
    then show ?thesis by (simp add: scan_format.simps)
  next
    case False
    obtain st' r where s: "scan_step buf fmt st = (st', r)"
      by (cases "scan_step buf fmt st")
    then have s': "scan_step buf' fmt st = (st', r)"
      using scan_step_agree [OF less.prems] by simp
    show ?thesis
    proof (cases r)
      case None
      then show ?thesis
        using False s s' by (subst scan_format.simps, subst (2) scan_format.simps) simp
    next
      case (Some rest)
      have "endp (ms st') = endp (ms st)"
        using scan_step_adv [OF advanced_refl, of st buf fmt] s by (simp add: advanced_def)
      then have "scan_format buf rest st' = scan_format buf' rest st'"
        using scan_step_shorter [OF False] s Some less.prems by (intro less.hyps) auto
      then show ?thesis
        using False s s' Some by (subst scan_format.simps, subst (2) scan_format.simps) simp
    qed
  qed
qed



subsection \<open>Unfolding the loop once\<close>

lemma scan_format_stop:
  "fmt_hd fmt \<noteq> CHR 0x00 \<Longrightarrow> scan_step buf fmt st = (st', None) \<Longrightarrow> scan_format buf fmt st = st'"
  by (subst scan_format.simps) simp

lemma scan_format_continue:
  "fmt_hd fmt \<noteq> CHR 0x00 \<Longrightarrow> scan_step buf fmt st = (st', Some rest) \<Longrightarrow>
     scan_format buf fmt st = scan_format buf rest st'"
  by (subst scan_format.simps) simp

subsection \<open>What a conversion does to the caller's variables\<close>

lemma readString_loop_dest:
  "length stored \<le> length (fst (snd (readString_loop buf width m stored dest))) \<and>
   (length (fst (snd (readString_loop buf width m stored dest))) = length stored \<longrightarrow>
      snd (snd (readString_loop buf width m stored dest)) = dest)"
proof (induction "endp m - ptr m" arbitrary: m stored dest rule: less_induct)
  case less
  show ?case
  proof (cases "ms_eof m \<or> isspace (ms_peek buf m)")
    case True
    then show ?thesis by (subst (1 2 3) readString_loop.simps) auto
  next
    case False
    let ?m' = "snd (ms_getc buf m)"
    have "endp ?m' - ptr ?m' < endp m - ptr m"
      using False by (auto simp: ms_getc_def ms_eof_def)
    note IH = less.hyps [OF this]
    show ?thesis
      using False IH [of stored dest]
        IH [of "stored @ [ms_peek buf m]" "SStr (stored @ [ms_peek buf m])"]
      by (subst (1 2 3) readString_loop.simps) (auto simp: Let_def)
  qed
qed

lemma readString_fail_dest:
  "\<not> fst (readString buf m dest w) \<Longrightarrow> snd (snd (readString buf m dest w)) = dest"
  using readString_loop_dest [of "[]" buf _ "ms_skip_whitespace buf m" dest]
  by (auto simp: readString_def Let_def split_beta)

lemma readChar_fail_dest: "\<not> fst (readChar buf m out) \<Longrightarrow> snd (snd (readChar buf m out)) = out"
  by (auto simp: readChar_def split_beta split: if_splits)

lemma conv_d_frame: "conv_frame st (conv_d buf sh lo st)"
  by (simp add: conv_frame_def conv_d_def Let_def split_beta va_arg_def store_def
        split: option.split)

lemma conv_u_frame: "conv_frame st (conv_u buf sh lo st)"
  by (simp add: conv_frame_def conv_u_def Let_def split_beta va_arg_def store_def
        split: option.split)

lemma conv_x_frame: "conv_frame st (conv_x buf sh lo st)"
  by (simp add: conv_frame_def conv_x_def Let_def split_beta va_arg_def store_def
        split: option.split)

lemma conv_f_frame: "conv_frame st (conv_f buf lo ld st)"
  by (simp add: conv_frame_def conv_f_def Let_def split_beta va_arg_def store_def
        split: option.split)

lemma conv_c_frame: "conv_frame st (conv_c buf st)"
  using readChar_fail_dest [of buf "ms st" "args st (va st)"]
  by (simp add: conv_frame_def conv_c_def Let_def split_beta va_arg_def store_def)

lemma conv_s_frame: "conv_frame st (conv_s buf w st)"
  using readString_fail_dest [of buf "ms st" "args st (va st)"]
  by (simp add: conv_frame_def conv_s_def Let_def split_beta va_arg_def store_def)

lemma convert_frame: "conv_frame st (convert buf spec sh lo ld w st)"
  by (simp add: convert_def conv_d_frame conv_u_frame conv_x_frame conv_f_frame
        conv_c_frame conv_s_frame)
     (simp add: conv_frame_def)


lemma scan_step_frame:
  assumes "va st = matchedCount st" and "scan_step buf fmt st = (st', r)"
  shows "matchedCount st \<le> matchedCount st' \<and>
         (\<forall>i. i < matchedCount st \<or> matchedCount st' \<le> i \<longrightarrow> args st' i = args st i) \<and>
         (r \<noteq> None \<longrightarrow> va st' = matchedCount st')"
proof (cases "fmt_hd fmt = CHR ''%''")
  case True
  obtain sh lo ld w f3 where p: "parse_directive (tl fmt) = (sh, lo, ld, w, f3)"
    by (metis prod_cases5)
  obtain ok st1 where c: "convert buf (fmt_hd f3) sh lo ld w st = (ok, st1)"
    by (cases "convert buf (fmt_hd f3) sh lo ld w st")
  have f: "conv_frame st (ok, st1)"
    using convert_frame [of st buf "fmt_hd f3" sh lo ld w] c by simp
  show ?thesis
    using assms True p c f
    by (auto simp: scan_step_def Let_def conv_frame_def split: if_splits)
next
  case False
  then show ?thesis
    using assms
    by (auto simp: scan_step_def Let_def split_beta split: if_splits)
qed

lemma scan_format_frame:
  assumes "va st = matchedCount st"
  shows "matchedCount st \<le> matchedCount (scan_format buf fmt st) \<and>
         (\<forall>i. i < matchedCount st \<or> matchedCount (scan_format buf fmt st) \<le> i \<longrightarrow>
              args (scan_format buf fmt st) i = args st i)"
proof (rule scan_format_rel [where I = "\<lambda>s. va s = matchedCount s" and
      R = "\<lambda>a b. matchedCount a \<le> matchedCount b \<and>
             (\<forall>i. i < matchedCount a \<or> matchedCount b \<le> i \<longrightarrow> args b i = args a i)"])
  show "va st = matchedCount st" by (rule assms)
next
  fix fmt st st' rest
  assume "va st = matchedCount st" and "scan_step buf fmt st = (st', Some rest)"
  then show "va st' = matchedCount st' \<and> (matchedCount st \<le> matchedCount st' \<and>
      (\<forall>i. i < matchedCount st \<or> matchedCount st' \<le> i \<longrightarrow> args st' i = args st i))"
    using scan_step_frame [of st buf fmt st' "Some rest"] by simp
next
  fix fmt st st'
  assume "va st = matchedCount st" and "scan_step buf fmt st = (st', None)"
  then show "matchedCount st \<le> matchedCount st' \<and>
      (\<forall>i. i < matchedCount st \<or> matchedCount st' \<le> i \<longrightarrow> args st' i = args st i)"
    using scan_step_frame [of st buf fmt st' None] by simp
next
  fix a b c :: scan_state
  assume "matchedCount a \<le> matchedCount b \<and>
      (\<forall>i. i < matchedCount a \<or> matchedCount b \<le> i \<longrightarrow> args b i = args a i)"
    and "matchedCount b \<le> matchedCount c \<and>
      (\<forall>i. i < matchedCount b \<or> matchedCount c \<le> i \<longrightarrow> args c i = args b i)"
  then show "matchedCount a \<le> matchedCount c \<and>
      (\<forall>i. i < matchedCount a \<or> matchedCount c \<le> i \<longrightarrow> args c i = args a i)"
    by (metis le_trans less_le_trans)
qed simp

subsection \<open>A newline in the format is white space\<close>

lemma nl_sp_class:
  assumes "nl_sp c c'"
  shows "isspace c = isspace c'" and "isdigit c = isdigit c'"
    and "(c = CHR ''%'') = (c' = CHR ''%'')" and "(c = CHR 0x00) = (c' = CHR 0x00)"
    and "(c = CHR ''.'') = (c' = CHR ''.'')" and "(c = CHR ''h'') = (c' = CHR ''h'')"
    and "(c = CHR ''l'') = (c' = CHR ''l'')" and "(c = CHR ''L'') = (c' = CHR ''L'')"
    and "\<not> isspace c \<Longrightarrow> c = c'" and "isdigit c \<Longrightarrow> c = c'"
  using assms by (auto simp: nl_sp_def isspace_def isdigit_def)

lemma nl_sp_fmt_hd: "list_all2 nl_sp f f' \<Longrightarrow> nl_sp (fmt_hd f) (fmt_hd f')"
  by (cases f; cases f') (auto simp: fmt_hd_def nl_sp_def)

lemma nl_sp_tl: "list_all2 nl_sp f f' \<Longrightarrow> list_all2 nl_sp (tl f) (tl f')"
  by (cases f; cases f') auto

lemma nl_sp_dropWhile:
  "list_all2 nl_sp f f' \<Longrightarrow>
     list_all2 nl_sp (dropWhile (\<lambda>c. c = CHR ''.'' \<or> isdigit c) f)
                     (dropWhile (\<lambda>c. c = CHR ''.'' \<or> isdigit c) f')"
  by (induction rule: list_all2_induct) (auto dest: nl_sp_class)

lemma nl_sp_takeWhile:
  "list_all2 nl_sp f f' \<Longrightarrow> takeWhile isdigit f = takeWhile isdigit f'"
  by (induction rule: list_all2_induct) (auto dest: nl_sp_class)

lemma nl_sp_parse_directive:
  assumes "list_all2 nl_sp f f'"
  shows "fst (parse_directive f) = fst (parse_directive f') \<and>
         fst (snd (parse_directive f)) = fst (snd (parse_directive f')) \<and>
         fst (snd (snd (parse_directive f))) = fst (snd (snd (parse_directive f'))) \<and>
         fst (snd (snd (snd (parse_directive f)))) = fst (snd (snd (snd (parse_directive f')))) \<and>
         list_all2 nl_sp (snd (snd (snd (snd (parse_directive f)))))
                         (snd (snd (snd (snd (parse_directive f')))))"
proof -
  let ?P = "\<lambda>c. c = CHR ''.'' \<or> isdigit c"
  have 1: "list_all2 nl_sp (dropWhile ?P f) (dropWhile ?P f')"
    by (rule nl_sp_dropWhile [OF assms])
  note h1 = nl_sp_class [OF nl_sp_fmt_hd [OF 1]]
  have 2: "list_all2 nl_sp (tl (dropWhile ?P f)) (tl (dropWhile ?P f'))"
    by (rule nl_sp_tl [OF 1])
  note t1 = nl_sp_takeWhile [OF 1] and t2 = nl_sp_takeWhile [OF 2]
  note h2 = nl_sp_class [OF nl_sp_fmt_hd [OF 2]]
  show ?thesis
    using 1 2 h1(2,6,7,8) h2(2) t1 t2
    by (auto simp: parse_directive_def Let_def intro!: list_all2_dropI)
qed

lemma nl_sp_convert:
  "nl_sp spec spec' \<Longrightarrow> convert buf spec sh lo ld w st = convert buf spec' sh lo ld w st"
proof (cases "spec = spec'")
  case True
  then show ?thesis by simp
next
  case False
  assume "nl_sp spec spec'"
  then have "(spec = CHR 0x0A \<or> spec = CHR '' '') \<and> (spec' = CHR 0x0A \<or> spec' = CHR '' '')"
    using False by (simp add: nl_sp_def)
  moreover have "convert buf (CHR 0x0A) sh lo ld w st = (False, st)"
    and "convert buf (CHR '' '') sh lo ld w st = (False, st)"
    by (simp_all add: convert_def)
  ultimately show ?thesis by metis
qed

lemma nl_sp_scan_step:
  assumes "list_all2 nl_sp f f'"
  shows "fst (scan_step buf f st) = fst (scan_step buf f' st) \<and>
         rel_option (list_all2 nl_sp) (snd (scan_step buf f st)) (snd (scan_step buf f' st))"
proof -
  note h = nl_sp_class [OF nl_sp_fmt_hd [OF assms]]
  note t = nl_sp_tl [OF assms]
  show ?thesis
  proof (cases "fmt_hd f = CHR ''%''")
    case True
    then have True': "fmt_hd f' = CHR ''%''" using h(3) by simp
    note p = nl_sp_parse_directive [OF t]
    obtain a b c w f3 where pf: "parse_directive (tl f) = (a, b, c, w, f3)"
      by (metis prod_cases5)
    obtain f3' where pf': "parse_directive (tl f') = (a, b, c, w, f3')"
      and r3: "list_all2 nl_sp f3 f3'"
      using p pf by (cases "parse_directive (tl f')") auto
    note s = nl_sp_fmt_hd [OF r3]
    obtain ok st1 where c: "convert buf (fmt_hd f3) a b c w st = (ok, st1)"
      by (cases "convert buf (fmt_hd f3) a b c w st")
    then have c': "convert buf (fmt_hd f3') a b c w st = (ok, st1)"
      using nl_sp_convert [OF s, of buf a b c w st] by simp
    have z: "(fmt_hd f3 = CHR 0x00) = (fmt_hd f3' = CHR 0x00)"
      by (rule nl_sp_class(4) [OF s])
    have A: "scan_step buf f st =
        (if fmt_hd f3 = CHR 0x00 then (st, None)
         else if ok then (st1\<lparr>matchedCount := matchedCount st1 + 1\<rparr>, Some (tl f3))
         else (st1, None))"
      using True pf c by (simp add: scan_step_def)
    have B: "scan_step buf f' st =
        (if fmt_hd f3' = CHR 0x00 then (st, None)
         else if ok then (st1\<lparr>matchedCount := matchedCount st1 + 1\<rparr>, Some (tl f3'))
         else (st1, None))"
      using True' pf' c' by (simp add: scan_step_def)
    show ?thesis
      unfolding A B using z nl_sp_tl [OF r3] by simp
  next
    case False
    then have False': "fmt_hd f' \<noteq> CHR ''%''" using h(3) by simp
    show ?thesis
    proof (cases "isspace (fmt_hd f)")
      case True
      then show ?thesis
        using False False' h(1) t by (simp add: scan_step_def)
    next
      case False2: False
      then have "fmt_hd f' = fmt_hd f" using h(9) by simp
      then show ?thesis
        using False False' False2 t
        by (auto simp: scan_step_def Let_def split_beta)
    qed
  qed
qed

lemma nl_sp_scan_format:
  "list_all2 nl_sp f f' \<Longrightarrow> scan_format buf f st = scan_format buf f' st"
proof (induction "length f" arbitrary: f f' st rule: less_induct)
  case less
  note h = nl_sp_class [OF nl_sp_fmt_hd [OF less.prems]]
  show ?case
  proof (cases "fmt_hd f = CHR 0x00")
    case True
    then show ?thesis using h(4) by (simp add: scan_format.simps)
  next
    case False
    then have False': "fmt_hd f' \<noteq> CHR 0x00" using h(4) by simp
    obtain st' r where s: "scan_step buf f st = (st', r)"
      by (cases "scan_step buf f st")
    obtain r' where s': "scan_step buf f' st = (st', r')" and rr: "rel_option (list_all2 nl_sp) r r'"
      using nl_sp_scan_step [OF less.prems, of buf st] s
      by (cases "scan_step buf f' st") auto
    show ?thesis
    proof (cases r)
      case None
      then have "r' = None" using rr by simp
      then show ?thesis
        using None s s' scan_format_stop [OF False] scan_format_stop [OF False'] by simp
    next
      case (Some rest)
      then obtain rest' where r': "r' = Some rest'" and rel: "list_all2 nl_sp rest rest'"
        using rr by (cases r') auto
      have "length rest < length f"
        using scan_step_shorter [OF False] s Some by simp
      then have "scan_format buf rest st' = scan_format buf rest' st'"
        using less.hyps rel by blast
      then show ?thesis
        using Some r' s s' scan_format_continue [OF False] scan_format_continue [OF False']
        by simp
    qed
  qed
qed

section \<open>The record scenario\<close>

text \<open>
  C1. The call at offset 0 with the format
  \<open>":%x[%hd]( %hd %hu %d %x %lx %f %Lf %s %hd/%hd/%hd %hd:%hd:%hd\n"\<close> on the buffer
  \<open>":1a[5]( 3 7 42 ff 2b3 1.5 2.25 tok 01/02/2024 09:30:00\n"\<close> (55 bytes) returns 16,
  whatever the caller's variables held before. Afterwards the first variable holds
  \<open>0x1a\<close> (from \<open>%x\<close>), the second 5 (from the bracketed \<open>%hd\<close>), the seventh \<open>0x2b3\<close>
  (from \<open>%lx\<close>) and the tenth the string \<open>tok\<close> (from \<open>%s\<close>); the offset is left at the end
  of the buffer.
\<close>

theorem scenario_record_matches_16:
  "(case fast_fscanf_mem
      (mem_of ('':1a[5]( 3 7 42 ff 2b3 1.5 2.25 tok 01/02/2024 09:30:00'' @ [CHR 0x0A])) 55 0
      ('':%x[%hd]( %hd %hu %d %x %lx %f %Lf %s %hd/%hd/%hd %hd:%hd:%hd'' @ [CHR 0x0A]) slots
    of (n, off, out) \<Rightarrow>
      n = 16 \<and> off = 55 \<and> out 0 = SUInt 0x1a \<and> out 1 = SShort 5 \<and>
      out 6 = SULong 0x2b3 \<and> out 9 = SStr ''tok'')"
  by (simp add: eval_defs)

section \<open>Rollback after a literal mismatch\<close>

text \<open>
  C2 says that a literal that fails to match leaves the offset before the character that
  did not match. The code does not: \<open>ms_ungetc\<close> is called, but its test
  \<open>ptr > end - (end - ptr)\<close> compares the pointer with itself, so nothing is pushed back.
  What the code does, for every literal character \<open>c\<close> of the format (not white space,
  not the percent sign) that meets a different character after the white space of the
  buffer: the scan stops with the cursor just behind the character that did not match,
  and nothing else in the state changed.
\<close>

theorem literal_mismatch_consumes_char:
  assumes "c \<noteq> CHR 0x00" and "c \<noteq> CHR ''%''" and "\<not> isspace c"
    and "ms1 = ms_skip_whitespace buf (ms st)" and "\<not> ms_eof ms1" and "buf (ptr ms1) \<noteq> c"
  shows "scan_format buf (c # rest) st = st\<lparr>ms := ms1\<lparr>ptr := ptr ms1 + 1\<rparr>\<rparr>"
proof -
  have "ms_ungetc (ms1\<lparr>ptr := ptr ms1 + 1\<rparr>) = ms1\<lparr>ptr := ptr ms1 + 1\<rparr>"
    using assms(5) by (intro ms_ungetc_in_range) (simp add: ms_eof_def)
  then have "scan_step buf (c # rest) st = (st\<lparr>ms := ms1\<lparr>ptr := ptr ms1 + 1\<rparr>\<rparr>, None)"
    using assms by (auto simp: scan_step_def fmt_hd_def Let_def ms_getc_def isspace_def)
  then show ?thesis
    using assms(1) by (intro scan_format_stop) (simp_all add: fmt_hd_def)
qed

text \<open>The call on the one-byte buffer \<open>"b"\<close> with the format \<open>"a"\<close> at offset 0: no match,
  and the offset comes back as 1, not 0.\<close>

theorem literal_mismatch_consumes_char_witness:
  "fast_fscanf_mem (mem_of ''b'') 1 0 ''a'' blank_slots = (0, 1, blank_slots)"
  using literal_mismatch_consumes_char [of "CHR ''a''" "\<lparr>ptr = 0, endp = 1\<rparr>" "mem_of ''b''"
     "\<lparr>ms = \<lparr>ptr = 0, endp = 1\<rparr>, matchedCount = 0, va = 0, args = blank_slots\<rparr>" "[]"]
  by (simp add: fast_fscanf_mem_def char_defs ms_defs ms_skip_whitespace.simps)

section \<open>The cursor never moves back\<close>

text \<open>
  C9. The test that guards the decrement in \<open>ms_ungetc\<close> is false for every scanner, so
  \<open>ms_ungetc\<close> leaves a scanner that is inside its buffer as it is (the scanner it is
  called on in \<open>fast_fscanf_mem\<close> always is: a character has just been read). No step of
  the directive loop moves the cursor back, and the offset a call returns is at least
  the offset it was given.
\<close>

theorem cursor_never_moves_back:
  "\<not> ungetc_can_go_back m \<and>
   (ptr m \<le> endp m \<longrightarrow> ms_ungetc m = m) \<and>
   ptr (ms st) \<le> ptr (ms (fst (scan_step buf fmt st))) \<and>
   offset \<le> fst (snd (fast_fscanf_mem buffer bufsize offset format slots))"
proof -
  have "advanced (ms st) (ms (fst (scan_step buf fmt st)))"
    by (rule scan_step_adv [OF advanced_refl])
  moreover have "advanced \<lparr>ptr = offset, endp = bufsize\<rparr>
     (ms (scan_format buffer format
        \<lparr>ms = \<lparr>ptr = offset, endp = bufsize\<rparr>, matchedCount = 0, va = 0, args = slots\<rparr>))"
    using scan_format_adv
      [of "\<lparr>ms = \<lparr>ptr = offset, endp = bufsize\<rparr>, matchedCount = 0, va = 0, args = slots\<rparr>"]
    by simp
  ultimately show ?thesis
    by (simp add: ungetc_can_go_back_def ms_ungetc_in_range advanced_def fast_fscanf_mem_def
          Let_def)
qed

theorem cursor_never_moves_back_witness:
  "(1::nat) \<le> 1 \<and> ms_ungetc \<lparr>ptr = 1, endp = 1\<rparr> = \<lparr>ptr = 1, endp = 1\<rparr> \<and>
   (0::nat) \<le> fst (snd (fast_fscanf_mem (mem_of ''b'') 1 0 ''a'' blank_slots))"
  using cursor_never_moves_back [of "\<lparr>ptr = 1, endp = 1\<rparr>" _ _ _ 0 "mem_of ''b''" 1 "''a''"
     blank_slots]
  by simp

section \<open>The end of the buffer\<close>

text \<open>
  C7. A call whose offset is at or behind the end of the buffer (so every call on a
  buffer of length zero, and every call with the offset equal to the length) returns 0
  and leaves the offset as it was. A call whose offset is at most the length returns an
  offset that is at most the length. The result of a call is the same for any two
  memories that hold the same first \<open>bufsize\<close> bytes, so no byte at index \<open>bufsize\<close> or
  beyond is examined. And each step of the directive loop keeps a cursor that is inside
  the buffer inside it, with the end where it was.
\<close>

theorem never_reads_past_end:
  "(bufsize \<le> offset \<longrightarrow>
      fst (fast_fscanf_mem buffer bufsize offset format slots) = 0 \<and>
      fst (snd (fast_fscanf_mem buffer bufsize offset format slots)) = offset) \<and>
   (offset \<le> bufsize \<longrightarrow>
      fst (snd (fast_fscanf_mem buffer bufsize offset format slots)) \<le> bufsize) \<and>
   (agree bufsize buffer buffer' \<longrightarrow>
      fast_fscanf_mem buffer' bufsize offset format slots =
      fast_fscanf_mem buffer bufsize offset format slots) \<and>
   (ptr (ms st) \<le> endp (ms st) \<longrightarrow>
      ptr (ms (fst (scan_step buf fmt st))) \<le> endp (ms st) \<and>
      endp (ms (fst (scan_step buf fmt st))) = endp (ms st))"
proof -
  let ?st0 = "\<lparr>ms = \<lparr>ptr = offset, endp = bufsize\<rparr>, matchedCount = 0, va = 0, args = slots\<rparr>"
  have eof: "bufsize \<le> offset \<Longrightarrow>
      ms (scan_format buffer format ?st0) = ms ?st0 \<and>
      matchedCount (scan_format buffer format ?st0) = matchedCount ?st0"
    using scan_format_eof [of ?st0 buffer format] by (simp add: ms_eof_def)
  have adv: "advanced (ms ?st0) (ms (scan_format buffer format ?st0))"
    by (rule scan_format_adv)
  have agr: "agree bufsize buffer buffer' \<Longrightarrow>
      scan_format buffer format ?st0 = scan_format buffer' format ?st0"
    using scan_format_agree [of ?st0 buffer buffer' format] by simp
  have step: "advanced (ms st) (ms (fst (scan_step buf fmt st)))"
    by (rule scan_step_adv [OF advanced_refl])
  show ?thesis
    using eof adv agr step by (auto simp: fast_fscanf_mem_def Let_def advanced_def)
qed

text \<open>On the two bytes \<open>"12"\<close>: at offset 2 nothing matches; at offset 0 \<open>%d\<close> stops at the
  end, and a third byte behind the end makes no difference.\<close>

theorem never_reads_past_end_witness:
  "fst (fast_fscanf_mem (mem_of ''12'') 2 2 ''%d'' blank_slots) = 0 \<and>
   fst (snd (fast_fscanf_mem (mem_of ''12'') 2 2 ''%d'' blank_slots)) = 2 \<and>
   fst (snd (fast_fscanf_mem (mem_of ''12'') 2 0 ''%d'' blank_slots)) \<le> 2 \<and>
   agree 2 (mem_of ''12'') (mem_of ''123'') \<and>
   fast_fscanf_mem (mem_of ''123'') 2 0 ''%d'' blank_slots =
   fast_fscanf_mem (mem_of ''12'') 2 0 ''%d'' blank_slots \<and>
   ptr (ms (fst (scan_step (mem_of ''12'') ''%d''
     \<lparr>ms = \<lparr>ptr = 0, endp = 2\<rparr>, matchedCount = 0, va = 0, args = blank_slots\<rparr>))) \<le> 2"
proof -
  have a: "agree 2 (mem_of ''12'') (mem_of ''123'')"
    by (simp add: agree_def mem_of_def less_Suc_eq numeral_2_eq_2)
  show ?thesis
    using a never_reads_past_end [of 2 2 "mem_of ''12''" "''%d''" blank_slots]
      never_reads_past_end [of 2 0 "mem_of ''12''" "''%d''" blank_slots "mem_of ''123''"
        "\<lparr>ms = \<lparr>ptr = 0, endp = 2\<rparr>, matchedCount = 0, va = 0, args = blank_slots\<rparr>"
        "mem_of ''12''" "''%d''"]
    by simp
qed

section \<open>Signs before unsigned and hexadecimal conversions\<close>

text \<open>
  C4. Take a conversion directive whose type letter is \<open>u\<close> or \<open>x\<close> (with any length
  modifier), and a buffer whose next character after white space is \<open>+\<close> or \<open>-\<close>. The
  integer scanner, called without sign permission, stops at the sign: it reports failure
  with an empty token and the cursor on the sign, for either base. The directive is not
  matched: the scan stops there with the count, the variables and the \<open>va_list\<close> as they
  were.
\<close>

theorem unsigned_hex_reject_sign:
  assumes "ms1 = ms_skip_whitespace buf (ms st)" and "\<not> ms_eof ms1"
    and "buf (ptr ms1) = CHR ''+'' \<or> buf (ptr ms1) = CHR ''-''"
    and "parse_directive fmt' = (sh, lo, ld, w, f3)"
    and "fmt_hd f3 = CHR ''u'' \<or> fmt_hd f3 = CHR ''x''"
  shows "readIntegerToken buf (ms st) False base 128 = (False, ms1, []) \<and>
         scan_format buf (CHR ''%'' # fmt') st = st\<lparr>ms := ms1\<rparr>"
proof -
  have tok: "readIntegerToken buf (ms st) False b 128 = (False, ms1, [])" for b
    using assms(1-3)
    by (subst readIntegerToken_def, subst readIntegerToken_loop.simps)
       (auto simp: Let_def ms_peek_def isdigit_def isxdigit_def)
  have "convert buf (fmt_hd f3) sh lo ld w st = (False, st\<lparr>ms := ms1\<rparr>)"
    using assms(5) tok by (auto simp: convert_def conv_u_def conv_x_def)
  then have "scan_step buf (CHR ''%'' # fmt') st = (st\<lparr>ms := ms1\<rparr>, None)"
    using assms(4,5) by (auto simp: scan_step_def fmt_hd_def Let_def)
  then have "scan_format buf (CHR ''%'' # fmt') st = st\<lparr>ms := ms1\<rparr>"
    by (intro scan_format_stop) (simp_all add: fmt_hd_def)
  then show ?thesis using tok by simp
qed

text \<open>\<open>%u\<close> on \<open>" +5"\<close> and \<open>%lx\<close> on \<open>"-1f"\<close>.\<close>

theorem unsigned_hex_reject_sign_witness:
  "readIntegerToken (mem_of '' +5'') \<lparr>ptr = 0, endp = 3\<rparr> False 10 128 =
     (False, \<lparr>ptr = 1, endp = 3\<rparr>, []) \<and>
   fast_fscanf_mem (mem_of '' +5'') 3 0 ''%u'' blank_slots = (0, 1, blank_slots) \<and>
   fast_fscanf_mem (mem_of ''-1f'') 3 0 ''%lx'' blank_slots = (0, 0, blank_slots)"
  using unsigned_hex_reject_sign [of "\<lparr>ptr = 1, endp = 3\<rparr>" "mem_of '' +5''"
      "\<lparr>ms = \<lparr>ptr = 0, endp = 3\<rparr>, matchedCount = 0, va = 0, args = blank_slots\<rparr>"
      "''u''" False False False 0 "''u''" 10]
    unsigned_hex_reject_sign [of "\<lparr>ptr = 0, endp = 3\<rparr>" "mem_of ''-1f''"
      "\<lparr>ms = \<lparr>ptr = 0, endp = 3\<rparr>, matchedCount = 0, va = 0, args = blank_slots\<rparr>"
      "''lx''" False True False 0 "''x''" 16]
  by (simp add: fast_fscanf_mem_def char_defs ms_defs ms_skip_whitespace.simps
        parse_directive_def fmt_hd_def atoi_def)

section \<open>What a failed directive leaves behind\<close>

text \<open>
  C8. From any state of the directive loop in which the next variadic pointer is the
  one after the last match (as at the start of a call): the variables of earlier
  matches keep their values to the end of the scan, and the variables from the final
  count on are never written. A conversion that fails writes no variable at all, and
  the scan stops with the state that conversion left. For a whole call: every variable
  from the returned count on holds what it held before.
\<close>

theorem failed_directive_writes_nothing:
  assumes "va st = matchedCount st"
  shows "(\<forall>i. i < matchedCount st \<or> matchedCount (scan_format buf fmt st) \<le> i \<longrightarrow>
            args (scan_format buf fmt st) i = args st i) \<and>
         (\<not> fst (convert buf spec sh lo ld w st) \<longrightarrow>
            args (snd (convert buf spec sh lo ld w st)) = args st) \<and>
         (fmt_hd fmt = CHR ''%'' \<and> parse_directive (tl fmt) = (sh, lo, ld, w, f3) \<and>
          \<not> fst (convert buf (fmt_hd f3) sh lo ld w st) \<longrightarrow>
            scan_format buf fmt st = snd (convert buf (fmt_hd f3) sh lo ld w st)) \<and>
         (\<forall>i. fst (fast_fscanf_mem buffer bufsize offset format slots) \<le> i \<longrightarrow>
            snd (snd (fast_fscanf_mem buffer bufsize offset format slots)) i = slots i)"
proof -
  have 1: "\<not> fst (convert buf spec sh lo ld w st) \<longrightarrow>
            args (snd (convert buf spec sh lo ld w st)) = args st"
    using convert_frame [of st buf spec sh lo ld w] by (simp add: conv_frame_def)
  have 2: "scan_format buf fmt st = snd (convert buf (fmt_hd f3) sh lo ld w st)"
    if "fmt_hd fmt = CHR ''%''" and "parse_directive (tl fmt) = (sh, lo, ld, w, f3)"
      and "\<not> fst (convert buf (fmt_hd f3) sh lo ld w st)"
  proof -
    have "convert buf (CHR 0x00) sh lo ld w st = (False, st)"
      by (simp add: convert_def)
    then have "scan_step buf fmt st = (snd (convert buf (fmt_hd f3) sh lo ld w st), None)"
      using that by (auto simp: scan_step_def Let_def split_beta)
    then show ?thesis
      using that(1) by (intro scan_format_stop) simp_all
  qed
  have 3: "fst (fast_fscanf_mem buffer bufsize offset format slots) \<le> i \<longrightarrow>
            snd (snd (fast_fscanf_mem buffer bufsize offset format slots)) i = slots i" for i
    using scan_format_frame [of "\<lparr>ms = \<lparr>ptr = offset, endp = bufsize\<rparr>, matchedCount = 0,
        va = 0, args = slots\<rparr>" buffer format]
    by (simp add: fast_fscanf_mem_def Let_def)
  show ?thesis
    using scan_format_frame [OF assms, of buf fmt] 1 2 3 by blast
qed

text \<open>\<open>"%d %d"\<close> on \<open>"12 x"\<close>: the first variable keeps 12 when the second directive
  fails, and the second variable is untouched.\<close>

theorem failed_directive_writes_nothing_witness:
  "fst (fast_fscanf_mem (mem_of ''12 x'') 4 0 ''%d %d'' blank_slots) = 1 \<and>
   snd (snd (fast_fscanf_mem (mem_of ''12 x'') 4 0 ''%d %d'' blank_slots)) 1 = blank_slots 1 \<and>
   args (scan_format (mem_of ''12 x'') '' %d''
      \<lparr>ms = \<lparr>ptr = 2, endp = 4\<rparr>, matchedCount = 1, va = 1,
        args = blank_slots(0 := SInt 12)\<rparr>) 0 = SInt 12"
proof -
  let ?buf = "mem_of ''12 x''"
  let ?st1 = "\<lparr>ms = \<lparr>ptr = 2, endp = 4\<rparr>, matchedCount = 1, va = 1,
        args = blank_slots(0 := SInt 12)\<rparr>"
  have n: "fst (fast_fscanf_mem ?buf 4 0 ''%d %d'' blank_slots) = 1"
    by (simp add: eval_defs)
  have "args (scan_format ?buf '' %d'' ?st1) 0 = args ?st1 0"
    using failed_directive_writes_nothing [of ?st1 ?buf "'' %d''"] by simp
  moreover have "snd (snd (fast_fscanf_mem ?buf 4 0 ''%d %d'' blank_slots)) 1 = blank_slots 1"
    using n failed_directive_writes_nothing
      [of ?st1 _ _ _ _ _ _ _ _ ?buf 4 0 "''%d %d''" blank_slots]
    by simp
  ultimately show ?thesis using n by simp
qed

section \<open>A newline in the format\<close>

text \<open>
  C10. A newline is a white-space character, so in the format it is taken by the
  white-space branch of the loop and the branch written for newlines is never reached.
  Replacing a newline anywhere in a format by a space changes nothing: the call returns
  the same count, the same offset and the same variables. At the head of the format a
  newline skips the white space of the buffer (none, if there is none) and goes on to
  the rest of the format: it never stops the scan and asks for no newline in the buffer.
\<close>

theorem format_newline_is_space:
  "fast_fscanf_mem buffer bufsize offset (pre @ CHR 0x0A # post) slots =
   fast_fscanf_mem buffer bufsize offset (pre @ CHR '' '' # post) slots \<and>
   isspace (CHR 0x0A) \<and>
   scan_step buf (CHR 0x0A # post) st = (st\<lparr>ms := ms_skip_whitespace buf (ms st)\<rparr>, Some post)"
proof -
  have "list_all2 nl_sp (pre @ CHR 0x0A # post) (pre @ CHR '' '' # post)"
    by (auto simp: list_all2_append nl_sp_def list_all2_refl list.rel_refl)
  then show ?thesis
    by (simp add: fast_fscanf_mem_def nl_sp_scan_format scan_step_def fmt_hd_def isspace_def)
qed

end
